theory Spec2Isabelle
  imports Main "HOL-Library.Word"
begin

unbundle bit_operations_syntax

section \<open>Data model\<close>

text \<open>
  A Node \<open>Buffer\<close> is a sequence of bytes; a JavaScript string is a sequence of UTF-16
  code units. The argument \<open>data: string | Buffer\<close> of the encryption functions is a
  tagged union.
\<close>

type_synonym byte = "8 word"
type_synonym buffer = "byte list"
type_synonym jsstring = "16 word list"

datatype data = Str jsstring | Buf buffer

text \<open>The module constants of \<open>lib.ts\<close> (the algorithm name is fixed to AES-256-CBC).\<close>

definition IV_SIZE :: nat where
  "IV_SIZE = 16"

definition KEY_SIZE :: nat where
  "KEY_SIZE = 32"

text \<open>\<open>Buffer.subarray(start, end)\<close>, whose indices are clamped to the buffer.\<close>

definition subarray :: "buffer \<Rightarrow> nat \<Rightarrow> nat \<Rightarrow> buffer" where
  "subarray b start fin = drop start (take fin b)"

text \<open>\<open>Buffer.alloc(n).fill(0)\<close>.\<close>

definition alloc_zeros :: "nat \<Rightarrow> buffer" where
  "alloc_zeros n = replicate n 0"

section \<open>Key preparation\<close>

definition prepareKey :: "buffer \<Rightarrow> buffer" where
  "prepareKey key =
     (if length key \<ge> KEY_SIZE then subarray key 0 KEY_SIZE
      else (let zeros = alloc_zeros (KEY_SIZE - length key) in concat [key, zeros]))"

section \<open>The platform's cipher objects\<close>

text \<open>
  \<open>lib.ts\<close> drives Node's \<open>crypto\<close> module: \<open>createCipheriv\<close> and
  \<open>createDecipheriv\<close> for \<open>aes-256-cbc\<close>, then \<open>update\<close> and \<open>final\<close>. These are
  not code of the library; they are modelled here as the platform documents them (Node 20
  on OpenSSL 3), so that every exception the library can let escape is a value.

  The AES block transformation itself is a parameter: \<open>E key block\<close> enciphers and
  \<open>D key block\<close> deciphers one 16-byte block under a 32-byte key. Chaining, buffering
  and padding are written out.
\<close>

datatype error =
    InvalidIV
  | InvalidKeyLength
  | WrongFinalBlockLength
  | BadDecrypt
  | InternalError

type_synonym block_fn = "buffer \<Rightarrow> buffer \<Rightarrow> buffer"

record cipher_ctx =
  ctx_key :: buffer
  ctx_iv :: buffer
  ctx_buf :: buffer

definition xor_bytes :: "buffer \<Rightarrow> buffer \<Rightarrow> buffer" where
  "xor_bytes a b = map2 (XOR) a b"

text \<open>
  \<open>createCipheriv\<close> rejects an IV that is missing or not of the cipher's IV length, then a
  key that is not of the cipher's key length.
\<close>

definition createCipheriv :: "buffer \<Rightarrow> buffer \<Rightarrow> error + cipher_ctx" where
  "createCipheriv key iv =
     (if iv = [] \<or> length iv \<noteq> 16 then Inl InvalidIV
      else if length key \<noteq> 32 then Inl InvalidKeyLength
      else Inr \<lparr>ctx_key = key, ctx_iv = iv, ctx_buf = []\<rparr>)"

definition createDecipheriv :: "buffer \<Rightarrow> buffer \<Rightarrow> error + cipher_ctx" where
  "createDecipheriv key iv =
     (if iv = [] \<or> length iv \<noteq> 16 then Inl InvalidIV
      else if length key \<noteq> 32 then Inl InvalidKeyLength
      else Inr \<lparr>ctx_key = key, ctx_iv = iv, ctx_buf = []\<rparr>)"

text \<open>
  CBC over \<open>n\<close> whole blocks of the input, returning the output and the new chaining
  value: enciphering feeds each plaintext block, xored with the chaining value, to \<open>E\<close> and
  chains on the output; deciphering xors \<open>D\<close> of each block with the chaining value and
  chains on the input block.
\<close>

fun cbc_encrypt_blocks :: "block_fn \<Rightarrow> buffer \<Rightarrow> nat \<Rightarrow> buffer \<Rightarrow> buffer \<Rightarrow> buffer \<times> buffer" where
  "cbc_encrypt_blocks E key 0 iv inp = ([], iv)"
| "cbc_encrypt_blocks E key (Suc n) iv inp =
     (let out = E key (xor_bytes (take 16 inp) iv)
      in case cbc_encrypt_blocks E key n out (drop 16 inp) of
           (rest, iv') \<Rightarrow> (out @ rest, iv'))"

fun cbc_decrypt_blocks :: "block_fn \<Rightarrow> buffer \<Rightarrow> nat \<Rightarrow> buffer \<Rightarrow> buffer \<Rightarrow> buffer \<times> buffer" where
  "cbc_decrypt_blocks D key 0 iv inp = ([], iv)"
| "cbc_decrypt_blocks D key (Suc n) iv inp =
     (let blk = take 16 inp; out = xor_bytes (D key blk) iv
      in case cbc_decrypt_blocks D key n blk (drop 16 inp) of
           (rest, iv') \<Rightarrow> (out @ rest, iv'))"

text \<open>
  \<open>cipher.update\<close>: every whole block of the buffered bytes followed by the input is
  enciphered; the remainder stays buffered.
\<close>

definition cipher_update :: "block_fn \<Rightarrow> cipher_ctx \<Rightarrow> buffer \<Rightarrow> buffer \<times> cipher_ctx" where
  "cipher_update E ctx inp =
     (let pending = ctx_buf ctx @ inp; n = length pending div 16
      in case cbc_encrypt_blocks E (ctx_key ctx) n (ctx_iv ctx) pending of
           (out, iv') \<Rightarrow> (out, ctx\<lparr>ctx_iv := iv', ctx_buf := drop (16 * n) pending\<rparr>))"

text \<open>
  \<open>cipher.final\<close>: the buffered bytes are filled up to a block with the pad byte
  \<open>16 - length\<close> and enciphered.
\<close>

definition cipher_final :: "block_fn \<Rightarrow> cipher_ctx \<Rightarrow> buffer" where
  "cipher_final E ctx =
     (let pad = 16 - length (ctx_buf ctx);
          blk = ctx_buf ctx @ replicate pad (of_nat pad)
      in fst (cbc_encrypt_blocks E (ctx_key ctx) (Suc 0) (ctx_iv ctx) blk))"

text \<open>
  \<open>decipher.update\<close>: as for the cipher, except that when the bytes end on a block
  boundary the last block is held back for \<open>final\<close>; an empty input does nothing.
\<close>

definition decipher_update :: "block_fn \<Rightarrow> cipher_ctx \<Rightarrow> buffer \<Rightarrow> buffer \<times> cipher_ctx" where
  "decipher_update D ctx inp =
     (if inp = [] then ([], ctx)
      else
        (let pending = ctx_buf ctx @ inp; n = length pending div 16;
             m = (if length pending mod 16 = 0 then n - 1 else n)
         in case cbc_decrypt_blocks D (ctx_key ctx) m (ctx_iv ctx) pending of
              (out, iv') \<Rightarrow> (out, ctx\<lparr>ctx_iv := iv', ctx_buf := drop (16 * m) pending\<rparr>)))"

text \<open>
  Removing the padding of the last deciphered block: its last byte is the pad length,
  which must be between 1 and 16, and each of the last pad-length bytes must equal it.
\<close>

definition unpadblock :: "buffer \<Rightarrow> error + buffer" where
  "unpadblock buf =
     (if length buf \<noteq> 16 then Inl InternalError
      else
        (let pad = unat (buf ! 15)
         in if pad = 0 \<or> pad > 16 then Inl BadDecrypt
            else if list_all (\<lambda>b. unat b = pad) (drop (16 - pad) buf)
              then Inr (take (16 - pad) buf)
            else Inl BadDecrypt))"

text \<open>
  \<open>decipher.final\<close>: exactly one block must be held back; it is deciphered and its
  padding removed.
\<close>

definition decipher_final :: "block_fn \<Rightarrow> cipher_ctx \<Rightarrow> error + buffer" where
  "decipher_final D ctx =
     (if length (ctx_buf ctx) \<noteq> 16 then Inl WrongFinalBlockLength
      else unpadblock (fst (cbc_decrypt_blocks D (ctx_key ctx) (Suc 0) (ctx_iv ctx) (ctx_buf ctx))))"

section \<open>Strings as cipher input\<close>

text \<open>
  A string handed to the platform without an encoding is taken as UTF-8: a surrogate
  pair is one code point, a lone surrogate is replaced by U+FFFD.
\<close>

definition utf8_code_point :: "nat \<Rightarrow> buffer" where
  "utf8_code_point cp =
     (if cp < 0x80 then [of_nat cp]
      else if cp < 0x800 then [of_nat (0xC0 + cp div 0x40), of_nat (0x80 + cp mod 0x40)]
      else if cp < 0x10000 then
        [of_nat (0xE0 + cp div 0x1000), of_nat (0x80 + cp div 0x40 mod 0x40),
         of_nat (0x80 + cp mod 0x40)]
      else
        [of_nat (0xF0 + cp div 0x40000), of_nat (0x80 + cp div 0x1000 mod 0x40),
         of_nat (0x80 + cp div 0x40 mod 0x40), of_nat (0x80 + cp mod 0x40)])"

definition is_high_surrogate :: "16 word \<Rightarrow> bool" where
  "is_high_surrogate u \<longleftrightarrow> 0xD800 \<le> unat u \<and> unat u < 0xDC00"

definition is_low_surrogate :: "16 word \<Rightarrow> bool" where
  "is_low_surrogate u \<longleftrightarrow> 0xDC00 \<le> unat u \<and> unat u < 0xE000"

definition lone_unit :: "16 word \<Rightarrow> nat" where
  "lone_unit u = (if is_high_surrogate u \<or> is_low_surrogate u then 0xFFFD else unat u)"

fun utf8_encode :: "jsstring \<Rightarrow> buffer" where
  "utf8_encode [] = []"
| "utf8_encode [u] = utf8_code_point (lone_unit u)"
| "utf8_encode (u # v # rest) =
     (if is_high_surrogate u \<and> is_low_surrogate v
      then utf8_code_point (0x10000 + (unat u - 0xD800) * 0x400 + (unat v - 0xDC00))
             @ utf8_encode rest
      else utf8_code_point (lone_unit u) @ utf8_encode (v # rest))"

text \<open>
  The code points a string stands for, and a reader of UTF-8: one, two, three or four
  bytes to a code point, by the leading byte, every further byte a continuation byte.
\<close>

fun code_points :: "jsstring \<Rightarrow> nat list" where
  "code_points [] = []"
| "code_points [u] = [lone_unit u]"
| "code_points (u # v # rest) =
     (if is_high_surrogate u \<and> is_low_surrogate v
      then (0x10000 + (unat u - 0xD800) * 0x400 + (unat v - 0xDC00)) # code_points rest
      else lone_unit u # code_points (v # rest))"

definition continuation :: "byte \<Rightarrow> bool" where
  "continuation c \<longleftrightarrow> 0x80 \<le> unat c \<and> unat c < 0xC0"

fun utf8_decode :: "buffer \<Rightarrow> nat list option" where
  "utf8_decode [] = Some []"
| "utf8_decode (b # bs) =
     (if unat b < 0x80 then map_option (Cons (unat b)) (utf8_decode bs)
      else if unat b < 0xC0 then None
      else if unat b < 0xE0 then
        (case bs of
           c1 # rest \<Rightarrow>
             if continuation c1
             then map_option (Cons ((unat b - 0xC0) * 0x40 + (unat c1 - 0x80))) (utf8_decode rest)
             else None
         | _ \<Rightarrow> None)
      else if unat b < 0xF0 then
        (case bs of
           c1 # c2 # rest \<Rightarrow>
             if continuation c1 \<and> continuation c2
             then map_option
                    (Cons ((unat b - 0xE0) * 0x1000 + (unat c1 - 0x80) * 0x40 + (unat c2 - 0x80)))
                    (utf8_decode rest)
             else None
         | _ \<Rightarrow> None)
      else
        (case bs of
           c1 # c2 # c3 # rest \<Rightarrow>
             if continuation c1 \<and> continuation c2 \<and> continuation c3
             then map_option
                    (Cons ((unat b - 0xF0) * 0x40000 + (unat c1 - 0x80) * 0x1000
                           + (unat c2 - 0x80) * 0x40 + (unat c3 - 0x80)))
                    (utf8_decode rest)
             else None
         | _ \<Rightarrow> None))"

text \<open>The bytes \<open>cipher.update(data)\<close> works on, for \<open>data: string | Buffer\<close>.\<close>

fun update_input :: "data \<Rightarrow> buffer" where
  "update_input (Buf b) = b"
| "update_input (Str s) = utf8_encode s"

text \<open>
  The chunk \<open>cipher.write(data)\<close> hands to the transform: a string chunk is converted
  with the stream's default encoding, UTF-8.
\<close>

fun write_chunk :: "data \<Rightarrow> buffer" where
  "write_chunk (Buf b) = b"
| "write_chunk (Str s) = utf8_encode s"

section \<open>Synchronous encryption and decryption\<close>

text \<open>
  \<open>encrypt\<close> draws its IV from \<open>crypto.randomBytes(IV_SIZE)\<close>; the drawn value is the
  argument \<open>iv\<close> here.
\<close>

definition encrypt :: "block_fn \<Rightarrow> buffer \<Rightarrow> data \<Rightarrow> buffer \<Rightarrow> error + buffer" where
  "encrypt E iv dat key =
     (case createCipheriv (prepareKey key) iv of
        Inl e \<Rightarrow> Inl e
      | Inr cipher \<Rightarrow>
          (case cipher_update E cipher (update_input dat) of
             (encrypted, cipher') \<Rightarrow> Inr (concat [iv, encrypted, cipher_final E cipher'])))"

definition decrypt :: "block_fn \<Rightarrow> buffer \<Rightarrow> buffer \<Rightarrow> error + buffer" where
  "decrypt D encryptedData key =
     (let iv = subarray encryptedData 0 IV_SIZE;
          dat = subarray encryptedData IV_SIZE (length encryptedData)
      in case createDecipheriv (prepareKey key) iv of
           Inl e \<Rightarrow> Inl e
         | Inr decipher \<Rightarrow>
             (case decipher_update D decipher dat of
                (decrypted, decipher') \<Rightarrow>
                  (case decipher_final D decipher' of
                     Inl e \<Rightarrow> Inl e
                   | Inr last_block \<Rightarrow> Inr (concat [decrypted, last_block]))))"

section \<open>Asynchronous encryption and decryption\<close>

text \<open>
  The asynchronous variants use the cipher as a transform stream: \<open>write\<close> pushes the
  output of \<open>update\<close>, \<open>end\<close> pushes the output of \<open>final\<close> and then emits \<open>end\<close>, or
  emits \<open>error\<close> when \<open>final\<close> throws. An empty output is no \<open>data\<close> event.
\<close>

datatype event = DataEv buffer | EndEv | ErrorEv error

datatype 'a promise = Resolved 'a | Rejected error | Pending

definition push :: "buffer \<Rightarrow> event list" where
  "push chunk = (if chunk = [] then [] else [DataEv chunk])"

definition cipher_stream :: "block_fn \<Rightarrow> cipher_ctx \<Rightarrow> buffer \<Rightarrow> event list" where
  "cipher_stream E ctx chunk =
     (case cipher_update E ctx chunk of
        (out, ctx') \<Rightarrow> push out @ push (cipher_final E ctx') @ [EndEv])"

definition decipher_stream :: "block_fn \<Rightarrow> cipher_ctx \<Rightarrow> buffer \<Rightarrow> event list" where
  "decipher_stream D ctx chunk =
     (case decipher_update D ctx chunk of
        (out, ctx') \<Rightarrow>
          push out @
          (case decipher_final D ctx' of
             Inl e \<Rightarrow> [ErrorEv e]
           | Inr last_block \<Rightarrow> push last_block @ [EndEv]))"

text \<open>
  The three handlers registered in the promise executor: \<open>data\<close> appends to \<open>buffers\<close>,
  \<open>end\<close> resolves with their concatenation, \<open>error\<close> rejects. The promise stays pending
  when neither \<open>end\<close> nor \<open>error\<close> arrives.
\<close>

fun run_handlers :: "event list \<Rightarrow> buffer list \<Rightarrow> buffer promise" where
  "run_handlers [] buffers = Pending"
| "run_handlers (DataEv d # evs) buffers = run_handlers evs (buffers @ [d])"
| "run_handlers (EndEv # evs) buffers = Resolved (concat buffers)"
| "run_handlers (ErrorEv e # evs) buffers = Rejected e"

text \<open>
  \<open>encryptAsync\<close> is an \<open>async\<close> function: an exception of \<open>createCipheriv\<close> rejects its
  promise. \<open>decryptAsync\<close> is not: \<open>createDecipheriv\<close> runs before the promise is made,
  so its exception is thrown to the caller (\<open>Inl\<close>).
\<close>

definition encryptAsync :: "block_fn \<Rightarrow> buffer \<Rightarrow> data \<Rightarrow> buffer \<Rightarrow> buffer promise" where
  "encryptAsync E iv dat key =
     (case createCipheriv (prepareKey key) iv of
        Inl e \<Rightarrow> Rejected e
      | Inr cipher \<Rightarrow> run_handlers (cipher_stream E cipher (write_chunk dat)) [iv])"

definition decryptAsync :: "block_fn \<Rightarrow> buffer \<Rightarrow> buffer \<Rightarrow> error + buffer promise" where
  "decryptAsync D encryptedData key =
     (let iv = subarray encryptedData 0 IV_SIZE;
          dat = subarray encryptedData IV_SIZE (length encryptedData)
      in case createDecipheriv (prepareKey key) iv of
           Inl e \<Rightarrow> Inl e
         | Inr decipher \<Rightarrow> Inr (run_handlers (decipher_stream D decipher dat) []))"

text \<open>What a caller that awaits the call observes; \<open>None\<close> when the promise never settles.\<close>

fun await_promise :: "'a promise \<Rightarrow> (error + 'a) option" where
  "await_promise (Resolved v) = Some (Inr v)"
| "await_promise (Rejected e) = Some (Inl e)"
| "await_promise Pending = None"

fun await_call :: "error + 'a promise \<Rightarrow> (error + 'a) option" where
  "await_call (Inl e) = Some (Inl e)"
| "await_call (Inr p) = await_promise p"

section \<open>The confirmation prompt\<close>

text \<open>
  \<open>read({prompt, default})\<close> of the \<open>read\<close> package resolves to the line the user typed,
  or to the default when that line is empty. \<open>toLocaleLowerCase\<close> depends on the
  locale and is the parameter \<open>lower\<close>.
\<close>

definition read :: "jsstring \<Rightarrow> jsstring \<Rightarrow> jsstring \<Rightarrow> jsstring" where
  "read prompt dflt line = (if line \<noteq> [] then line else dflt)"

fun join :: "jsstring \<Rightarrow> jsstring list \<Rightarrow> jsstring" where
  "join sep [] = []"
| "join sep [x] = x"
| "join sep (x # y # ys) = x @ sep @ join sep (y # ys)"

definition default_yes :: "jsstring list" where
  "default_yes = [[0x79, 0x65, 0x73], [0x79]]"

text \<open>The parameter \<open>yes: string[] = ["yes", "y"]\<close>: an omitted argument takes the default.\<close>

definition yes_param :: "jsstring list option \<Rightarrow> jsstring list" where
  "yes_param yes_arg = (case yes_arg of None \<Rightarrow> default_yes | Some ys \<Rightarrow> ys)"

definition askQuestion ::
  "(jsstring \<Rightarrow> jsstring) \<Rightarrow> jsstring \<Rightarrow> jsstring list option \<Rightarrow> jsstring \<Rightarrow> bool" where
  "askQuestion lower prompt yes_arg line =
     (let yes = yes_param yes_arg;
          result = read prompt (join [0x2F] yes) line
      in lower result \<in> set (map lower yes))"

text \<open>Lowercasing of the letters A to Z, which every locale's lowercasing of ASCII text without \<open>I\<close> agrees with.\<close>

definition ascii_lower :: "jsstring \<Rightarrow> jsstring" where
  "ascii_lower s = map (\<lambda>u. if 0x41 \<le> unat u \<and> unat u \<le> 0x5A then u + 0x20 else u) s"

section \<open>Reference notions\<close>

text \<open>
  What the properties below speak of: a pair of block functions that is a cipher on
  16-byte blocks under 32-byte keys, block padding of a whole message, and CBC over a
  whole message.
\<close>

definition block_sized :: "block_fn \<Rightarrow> bool" where
  "block_sized F \<longleftrightarrow> (\<forall>key blk. length key = 32 \<longrightarrow> length blk = 16 \<longrightarrow> length (F key blk) = 16)"

definition block_cipher :: "block_fn \<Rightarrow> block_fn \<Rightarrow> bool" where
  "block_cipher E D \<longleftrightarrow>
     block_sized E \<and> block_sized D
     \<and> (\<forall>key blk. length key = 32 \<longrightarrow> length blk = 16 \<longrightarrow> D key (E key blk) = blk)"

definition pkcs_pad :: "buffer \<Rightarrow> buffer" where
  "pkcs_pad p = p @ replicate (16 - length p mod 16) (of_nat (16 - length p mod 16))"

definition pkcs_unpad :: "buffer \<Rightarrow> buffer option" where
  "pkcs_unpad p =
     (if p = [] then None
      else
        (let pad = unat (last p)
         in if 1 \<le> pad \<and> pad \<le> 16 \<and> pad \<le> length p
               \<and> drop (length p - pad) p = replicate pad (last p)
            then Some (take (length p - pad) p) else None))"

definition cbc_encrypt :: "block_fn \<Rightarrow> buffer \<Rightarrow> buffer \<Rightarrow> buffer \<Rightarrow> buffer" where
  "cbc_encrypt E key iv p = fst (cbc_encrypt_blocks E key (length p div 16) iv p)"

definition cbc_decrypt :: "block_fn \<Rightarrow> buffer \<Rightarrow> buffer \<Rightarrow> buffer \<Rightarrow> buffer" where
  "cbc_decrypt D key iv c = fst (cbc_decrypt_blocks D key (length c div 16) iv c)"

text \<open>The plaintext a ciphertext stands for: it must be whole blocks, at least one, and unpad.\<close>

definition plaintext_of :: "block_fn \<Rightarrow> buffer \<Rightarrow> buffer \<Rightarrow> buffer \<Rightarrow> buffer option" where
  "plaintext_of D key iv c =
     (if c = [] \<or> length c mod 16 \<noteq> 0 then None else pkcs_unpad (cbc_decrypt D key iv c))"

text \<open>
  A stand-in block cipher on which the theorems are instantiated: both directions xor
  the block with the first half of the key.
\<close>

definition xor_cipher :: block_fn where
  "xor_cipher key blk = xor_bytes blk (take 16 key)"

section \<open>Properties of key preparation\<close>

lemma prepareKey_length: "length (prepareKey key) = 32"
  by (simp add: prepareKey_def subarray_def alloc_zeros_def KEY_SIZE_def)

lemma prepareKey_long: "32 \<le> length key \<Longrightarrow> prepareKey key = take 32 key"
  by (simp add: prepareKey_def subarray_def KEY_SIZE_def)

lemma prepareKey_short:
  "length key < 32 \<Longrightarrow> prepareKey key = key @ replicate (32 - length key) 0"
  by (simp add: prepareKey_def alloc_zeros_def KEY_SIZE_def)

section \<open>Cipher block chaining\<close>

lemma length_xor_bytes: "length (xor_bytes a b) = min (length a) (length b)"
  by (simp add: xor_bytes_def)

lemma xor_bytes_cancel: "length a = length b \<Longrightarrow> xor_bytes (xor_bytes a b) b = a"
  unfolding xor_bytes_def
  by (induction a b rule: list_induct2) (simp_all add: xor.assoc)

lemma cbc_encrypt_blocks_append:
  "length a = 16 * n \<Longrightarrow>
   cbc_encrypt_blocks E key (n + m) iv (a @ b) =
     (case cbc_encrypt_blocks E key n iv a of
        (o1, iv1) \<Rightarrow> (case cbc_encrypt_blocks E key m iv1 b of (o2, iv2) \<Rightarrow> (o1 @ o2, iv2)))"
proof (induction n arbitrary: iv a)
  case 0
  then show ?case by (simp split: prod.splits)
next
  case (Suc n)
  have len: "length (drop 16 a) = 16 * n" using Suc.prems by simp
  have tk: "take 16 (a @ b) = take 16 a" using Suc.prems by simp
  have dr: "drop 16 (a @ b) = drop 16 a @ b" using Suc.prems by simp
  show ?case
    using Suc.IH [OF len]
    by (simp add: tk dr Let_def del: take_append drop_append split: prod.splits)
qed

lemma cbc_decrypt_blocks_append:
  "length a = 16 * n \<Longrightarrow>
   cbc_decrypt_blocks D key (n + m) iv (a @ b) =
     (case cbc_decrypt_blocks D key n iv a of
        (o1, iv1) \<Rightarrow> (case cbc_decrypt_blocks D key m iv1 b of (o2, iv2) \<Rightarrow> (o1 @ o2, iv2)))"
proof (induction n arbitrary: iv a)
  case 0
  then show ?case by (simp split: prod.splits)
next
  case (Suc n)
  have len: "length (drop 16 a) = 16 * n" using Suc.prems by simp
  have tk: "take 16 (a @ b) = take 16 a" using Suc.prems by simp
  have dr: "drop 16 (a @ b) = drop 16 a @ b" using Suc.prems by simp
  show ?case
    using Suc.IH [OF len]
    by (simp add: tk dr Let_def del: take_append drop_append split: prod.splits)
qed

lemma cbc_encrypt_blocks_prefix:
  assumes "16 * n \<le> length p"
  shows "cbc_encrypt_blocks E key n iv p = cbc_encrypt_blocks E key n iv (take (16 * n) p)"
proof -
  have "cbc_encrypt_blocks E key (n + 0) iv (take (16 * n) p @ drop (16 * n) p)
        = cbc_encrypt_blocks E key n iv (take (16 * n) p)"
    using assms by (subst cbc_encrypt_blocks_append) (simp_all split: prod.splits)
  then show ?thesis by simp
qed

lemma cbc_decrypt_blocks_prefix:
  assumes "16 * n \<le> length p"
  shows "cbc_decrypt_blocks D key n iv p = cbc_decrypt_blocks D key n iv (take (16 * n) p)"
proof -
  have "cbc_decrypt_blocks D key (n + 0) iv (take (16 * n) p @ drop (16 * n) p)
        = cbc_decrypt_blocks D key n iv (take (16 * n) p)"
    using assms by (subst cbc_decrypt_blocks_append) (simp_all split: prod.splits)
  then show ?thesis by simp
qed

section \<open>What the synchronous functions compute\<close>

lemma encrypt_envelope:
  assumes iv: "length iv = 16"
  shows "encrypt E iv dat key =
           Inr (iv @ cbc_encrypt E (prepareKey key) iv (pkcs_pad (update_input dat)))"
proof -
  define p where "p = update_input dat"
  define n where "n = length p div 16"
  define k where "k = prepareKey key"
  define hd_part where "hd_part = take (16 * n) p"
  define tl_part where "tl_part = drop (16 * n) p"
  define padding :: buffer where
    "padding = replicate (16 - length p mod 16) (of_nat (16 - length p mod 16))"
  have le: "16 * n \<le> length p" by (simp add: n_def)
  have len_hd: "length hd_part = 16 * n" using le by (simp add: hd_part_def)
  have len_tl: "length tl_part = length p mod 16"
    by (simp add: tl_part_def n_def) (metis minus_mult_div_eq_mod)
  have len_last: "length (tl_part @ padding) = 16"
    using len_tl by (simp add: padding_def)
  have padded: "pkcs_pad p = hd_part @ (tl_part @ padding)"
    by (simp add: pkcs_pad_def hd_part_def tl_part_def padding_def)
  have blocks: "length (hd_part @ (tl_part @ padding)) div 16 = n + Suc 0"
    using len_hd len_last by simp
  have create: "createCipheriv k iv = Inr \<lparr>ctx_key = k, ctx_iv = iv, ctx_buf = []\<rparr>"
    using iv by (auto simp: createCipheriv_def k_def prepareKey_length)
  obtain o1 iv1 where first: "cbc_encrypt_blocks E k n iv p = (o1, iv1)"
    by (cases "cbc_encrypt_blocks E k n iv p")
  then have first': "cbc_encrypt_blocks E k n iv hd_part = (o1, iv1)"
    using cbc_encrypt_blocks_prefix [OF le, of E k iv] by (simp add: hd_part_def)
  obtain o2 iv2 where last: "cbc_encrypt_blocks E k (Suc 0) iv1 (tl_part @ padding) = (o2, iv2)"
    by (cases "cbc_encrypt_blocks E k (Suc 0) iv1 (tl_part @ padding)")
  have "cbc_encrypt_blocks E k (n + Suc 0) iv (hd_part @ (tl_part @ padding)) =
          (case cbc_encrypt_blocks E k n iv hd_part of
             (o1, iv1) \<Rightarrow>
               (case cbc_encrypt_blocks E k (Suc 0) iv1 (tl_part @ padding) of
                  (o2, iv2) \<Rightarrow> (o1 @ o2, iv2)))"
    by (rule cbc_encrypt_blocks_append [OF len_hd])
  also have "\<dots> = (o1 @ o2, iv2)"
    by (simp only: first' last prod.case)
  finally have whole: "cbc_encrypt E k iv (pkcs_pad p) = o1 @ o2"
    by (simp only: cbc_encrypt_def blocks padded fst_conv)
  have upd: "cipher_update E \<lparr>ctx_key = k, ctx_iv = iv, ctx_buf = []\<rparr> p
             = (o1, \<lparr>ctx_key = k, ctx_iv = iv1, ctx_buf = tl_part\<rparr>)"
    using first by (simp add: cipher_update_def n_def tl_part_def)
  have fin: "cipher_final E \<lparr>ctx_key = k, ctx_iv = iv1, ctx_buf = tl_part\<rparr> = o2"
    using last len_tl by (simp add: cipher_final_def padding_def Let_def)
  show ?thesis
    unfolding encrypt_def
    using create upd fin whole by (simp add: k_def [symmetric] p_def [symmetric])
qed


lemma cbc_decrypt_blocks_iv_length:
  "length iv = 16 \<Longrightarrow> 16 * n \<le> length c \<Longrightarrow>
   length (snd (cbc_decrypt_blocks D key n iv c)) = 16"
proof (induction n arbitrary: iv c)
  case 0
  then show ?case by simp
next
  case (Suc n)
  have "length (take 16 c) = 16" using Suc.prems by simp
  moreover have "16 * n \<le> length (drop 16 c)" using Suc.prems by simp
  ultimately show ?case
    using Suc.IH [of "take 16 c" "drop 16 c"]
    by (cases "cbc_decrypt_blocks D key n (take 16 c) (drop 16 c)") (simp add: Let_def)
qed

lemma list_all_eq_replicate:
  "list_all (\<lambda>b. b = w) xs \<longleftrightarrow> xs = replicate (length xs) w"
  by (induction xs) auto

lemma unpadblock_pkcs_unpad:
  assumes "length blk = 16"
  shows "unpadblock blk = (case pkcs_unpad (pre @ blk) of
                             None \<Rightarrow> Inl BadDecrypt
                           | Some p \<Rightarrow> Inr (drop (length pre) p))"
    and "pkcs_unpad (pre @ blk) = (case unpadblock blk of
                                      Inl e \<Rightarrow> None | Inr t \<Rightarrow> Some (pre @ t))"
proof -
  define pad where "pad = unat (blk ! 15)"
  have ne: "blk \<noteq> []" using assms by auto
  have "last blk = blk ! 15"
    using assms ne by (simp add: last_conv_nth)
  then have last_blk: "last (pre @ blk) = blk ! 15"
    using ne by simp
  have all: "list_all (\<lambda>b. unat b = pad) xs \<longleftrightarrow> xs = replicate (length xs) (blk ! 15)" for xs
    using list_all_eq_replicate [of "blk ! 15" xs]
    by (simp add: pad_def word_unat_eq_iff [symmetric])
  have dr: "pad \<le> 16 \<Longrightarrow> drop (length (pre @ blk) - pad) (pre @ blk) = drop (16 - pad) blk"
    using assms by simp
  have tk: "pad \<le> 16 \<Longrightarrow> take (length (pre @ blk) - pad) (pre @ blk) = pre @ take (16 - pad) blk"
    using assms by simp
  have len_dr: "pad \<le> 16 \<Longrightarrow> length (drop (16 - pad) blk) = pad"
    using assms by simp
  have le_len: "pad \<le> 16 \<Longrightarrow> pad \<le> length (pre @ blk)"
    using assms by simp
  have dr_pre: "drop (length pre) (pre @ t) = t" for t
    by simp
  show "unpadblock blk = (case pkcs_unpad (pre @ blk) of
                             None \<Rightarrow> Inl BadDecrypt
                           | Some p \<Rightarrow> Inr (drop (length pre) p))"
  proof (cases "1 \<le> pad \<and> pad \<le> 16")
    case True
    then show ?thesis
      using assms ne dr tk len_dr le_len all [of "drop (16 - pad) blk"]
      by (simp add: dr_pre unpadblock_def pkcs_unpad_def last_blk pad_def [symmetric] Let_def
               del: drop_append take_append length_append)
  next
    case False
    then show ?thesis
      using assms ne
      by (auto simp add: unpadblock_def pkcs_unpad_def last_blk pad_def [symmetric] Let_def
               simp del: drop_append take_append)
  qed
  show "pkcs_unpad (pre @ blk) = (case unpadblock blk of
                                      Inl e \<Rightarrow> None | Inr t \<Rightarrow> Some (pre @ t))"
  proof (cases "1 \<le> pad \<and> pad \<le> 16")
    case True
    then show ?thesis
      using assms ne dr tk len_dr le_len all [of "drop (16 - pad) blk"]
      by (simp add: dr_pre unpadblock_def pkcs_unpad_def last_blk pad_def [symmetric] Let_def
               del: drop_append take_append length_append)
  next
    case False
    then show ?thesis
      using assms ne
      by (auto simp add: unpadblock_def pkcs_unpad_def last_blk pad_def [symmetric] Let_def
               simp del: drop_append take_append)
  qed
qed


lemma createDecipheriv_ok:
  "length iv = 16 \<Longrightarrow>
   createDecipheriv (prepareKey key) iv = Inr \<lparr>ctx_key = prepareKey key, ctx_iv = iv, ctx_buf = []\<rparr>"
  by (auto simp: createDecipheriv_def prepareKey_length)

lemma decrypt_plaintext_of:
  assumes sized: "block_sized D" and len: "16 \<le> length env"
  shows "decrypt D env key =
           (case plaintext_of D (prepareKey key) (take 16 env) (drop 16 env) of
              Some p \<Rightarrow> Inr p
            | None \<Rightarrow> Inl (if drop 16 env \<noteq> [] \<and> length (drop 16 env) mod 16 = 0
                           then BadDecrypt else WrongFinalBlockLength))"
proof -
  define iv where "iv = take 16 env"
  define c where "c = drop 16 env"
  define k where "k = prepareKey key"
  define ctx0 where "ctx0 = \<lparr>ctx_key = k, ctx_iv = iv, ctx_buf = []\<rparr>"
  have len_iv: "length iv = 16" using len by (simp add: iv_def)
  have len_k: "length k = 32" by (simp add: k_def prepareKey_length)
  have sub_iv: "subarray env 0 IV_SIZE = iv"
    by (simp add: subarray_def IV_SIZE_def iv_def)
  have sub_c: "subarray env IV_SIZE (length env) = c"
    by (simp add: subarray_def IV_SIZE_def c_def)
  have create: "createDecipheriv k iv = Inr ctx0"
    unfolding k_def ctx0_def using createDecipheriv_ok [OF len_iv] by (simp add: k_def)
  have unfold: "decrypt D env key =
      (case decipher_update D ctx0 c of
         (decrypted, decipher') \<Rightarrow>
           (case decipher_final D decipher' of
              Inl e \<Rightarrow> Inl e
            | Inr last_block \<Rightarrow> Inr (concat [decrypted, last_block])))"
    by (simp add: decrypt_def sub_iv sub_c k_def [symmetric] create)
  consider (empty) "c = []" | (ragged) "c \<noteq> []" "length c mod 16 \<noteq> 0"
    | (whole) "c \<noteq> []" "length c mod 16 = 0"
    by blast
  then show ?thesis
  proof cases
    case empty
    have "decrypt D env key = Inl WrongFinalBlockLength"
      by (simp add: unfold empty decipher_update_def decipher_final_def ctx0_def)
    moreover have "plaintext_of D k iv c = None"
      by (simp add: plaintext_of_def empty)
    ultimately show ?thesis
      using empty by (simp add: k_def iv_def c_def)
  next
    case ragged
    define n where "n = length c div 16"
    obtain o1 iv1 where blocks: "cbc_decrypt_blocks D k n iv c = (o1, iv1)"
      by (cases "cbc_decrypt_blocks D k n iv c")
    have rest: "length (drop (16 * n) c) \<noteq> 16"
    proof -
      have "length (drop (16 * n) c) = length c mod 16"
        by (simp add: n_def) (metis minus_mult_div_eq_mod)
      then show ?thesis by simp
    qed
    have "decipher_update D ctx0 c = (o1, ctx0\<lparr>ctx_iv := iv1, ctx_buf := drop (16 * n) c\<rparr>)"
      using ragged blocks
      by (simp add: decipher_update_def ctx0_def n_def [symmetric] Let_def)
    then have "decrypt D env key = Inl WrongFinalBlockLength"
      using rest by (simp add: unfold decipher_final_def)
    moreover have "plaintext_of D k iv c = None"
      using ragged by (simp add: plaintext_of_def)
    ultimately show ?thesis
      using ragged by (simp add: k_def iv_def c_def)
  next
    case whole
    define n where "n = length c div 16"
    define m where "m = n - 1"
    define hd_part where "hd_part = take (16 * m) c"
    define last_part where "last_part = drop (16 * m) c"
    have len_c: "length c = 16 * n"
      using whole by (simp add: n_def) (metis mult.commute div_mult_mod_eq add.right_neutral)
    have n_pos: "0 < n" using whole len_c by (cases n) auto
    have n_m: "n = m + Suc 0" using n_pos by (simp add: m_def)
    have le: "16 * m \<le> length c" by (simp add: len_c m_def)
    have len_hd: "length hd_part = 16 * m" using le by (simp add: hd_part_def)
    have len_last: "length last_part = 16"
      using n_pos by (simp add: last_part_def len_c m_def) 
    have split: "c = hd_part @ last_part" by (simp add: hd_part_def last_part_def)
    obtain o1 iv1 where first: "cbc_decrypt_blocks D k m iv c = (o1, iv1)"
      by (cases "cbc_decrypt_blocks D k m iv c")
    then have first': "cbc_decrypt_blocks D k m iv hd_part = (o1, iv1)"
      using cbc_decrypt_blocks_prefix [OF le, of D k iv] by (simp add: hd_part_def)
    have len_iv1: "length iv1 = 16"
      using cbc_decrypt_blocks_iv_length [OF len_iv le, of D k] first by simp
    obtain o2 iv2 where last: "cbc_decrypt_blocks D k (Suc 0) iv1 last_part = (o2, iv2)"
      by (cases "cbc_decrypt_blocks D k (Suc 0) iv1 last_part")
    have o2: "o2 = xor_bytes (D k last_part) iv1"
      using last len_last by (auto simp add: Let_def)
    have "length (D k last_part) = 16"
      using sized len_k len_last by (simp add: block_sized_def)
    then have len_o2: "length o2 = 16"
      using len_iv1 by (simp add: o2 length_xor_bytes)
    have "cbc_decrypt_blocks D k (m + Suc 0) iv (hd_part @ last_part) =
            (case cbc_decrypt_blocks D k m iv hd_part of
               (o1, iv1) \<Rightarrow>
                 (case cbc_decrypt_blocks D k (Suc 0) iv1 last_part of
                    (o2, iv2) \<Rightarrow> (o1 @ o2, iv2)))"
      by (rule cbc_decrypt_blocks_append [OF len_hd])
    also have "\<dots> = (o1 @ o2, iv2)"
      by (simp only: first' last prod.case)
    finally have "cbc_decrypt_blocks D k n iv c = (o1 @ o2, iv2)"
      by (simp only: n_m split [symmetric])
    then have whole_plain: "cbc_decrypt D k iv c = o1 @ o2"
      by (simp add: cbc_decrypt_def n_def)
    have plain: "plaintext_of D k iv c = pkcs_unpad (o1 @ o2)"
      using whole by (simp add: plaintext_of_def whole_plain)
    have m_eq: "(if length c mod 16 = 0 then length c div 16 - 1 else length c div 16) = m"
      using whole by (simp add: m_def n_def)
    have upd: "decipher_update D ctx0 c = (o1, ctx0\<lparr>ctx_iv := iv1, ctx_buf := last_part\<rparr>)"
      using whole(1) first
      by (simp add: decipher_update_def ctx0_def Let_def m_eq last_part_def)
    have fin: "decipher_final D (ctx0\<lparr>ctx_iv := iv1, ctx_buf := last_part\<rparr>) = unpadblock o2"
      using len_last last by (simp add: decipher_final_def ctx0_def del: cbc_decrypt_blocks.simps)
    have result: "decrypt D env key =
        (case unpadblock o2 of Inl e \<Rightarrow> Inl e | Inr t \<Rightarrow> Inr (o1 @ t))"
      by (simp add: unfold upd fin split: sum.splits)
    show ?thesis
    proof (cases "unpadblock o2")
      case (Inl e)
      then have "pkcs_unpad (o1 @ o2) = None"
        using unpadblock_pkcs_unpad(2) [OF len_o2, of o1] by simp
      moreover from this have "e = BadDecrypt"
        using unpadblock_pkcs_unpad(1) [OF len_o2, of o1] Inl by simp
      ultimately show ?thesis
        using whole Inl result plain by (simp add: k_def iv_def c_def)
    next
      case (Inr t)
      then have "pkcs_unpad (o1 @ o2) = Some (o1 @ t)"
        using unpadblock_pkcs_unpad(2) [OF len_o2, of o1] by simp
      then show ?thesis
        using whole Inr result plain by (simp add: k_def iv_def c_def)
    qed
  qed
qed


lemma cbc_blocks_roundtrip:
  assumes cipher: "block_cipher E D" and key: "length key = 32"
  shows "length iv = 16 \<Longrightarrow> length p = 16 * n \<Longrightarrow>
         cbc_encrypt_blocks E key n iv p = (c, iv') \<Longrightarrow>
         cbc_decrypt_blocks D key n iv c = (p, iv') \<and> length c = 16 * n"
proof (induction n arbitrary: iv p c iv')
  case 0
  then show ?case by simp
next
  case (Suc n)
  define blk where "blk = take 16 p"
  define out where "out = E key (xor_bytes blk iv)"
  obtain rest iv1 where rec: "cbc_encrypt_blocks E key n out (drop 16 p) = (rest, iv1)"
    by (cases "cbc_encrypt_blocks E key n out (drop 16 p)")
  have len_blk: "length blk = 16" using Suc.prems(2) by (simp add: blk_def)
  have len_x: "length (xor_bytes blk iv) = 16"
    using len_blk Suc.prems(1) by (simp add: length_xor_bytes)
  have len_out: "length out = 16"
    using cipher key len_x by (simp add: block_cipher_def block_sized_def out_def)
  have inv: "D key out = xor_bytes blk iv"
    using cipher key len_x by (simp add: block_cipher_def out_def)
  have c: "c = out @ rest" and iv': "iv' = iv1"
    using Suc.prems(3) rec by (simp_all add: Let_def blk_def out_def)
  have len_rest: "length (drop 16 p) = 16 * n" using Suc.prems(2) by simp
  have ih: "cbc_decrypt_blocks D key n out rest = (drop 16 p, iv1) \<and> length rest = 16 * n"
    using Suc.IH [OF len_out len_rest rec] .
  have undo: "xor_bytes (D key out) iv = blk"
    using xor_bytes_cancel [of blk iv] len_blk Suc.prems(1) by (simp add: inv)
  have "cbc_decrypt_blocks D key (Suc n) iv (out @ rest) = (blk @ drop 16 p, iv1)"
    using ih len_out undo by (simp add: Let_def)
  then show ?case
    using ih len_out by (simp add: c iv' blk_def)
qed

lemma length_pkcs_pad: "length (pkcs_pad p) = 16 * (length p div 16 + 1)"
proof -
  have "length p mod 16 < 16" by simp
  then have "length p + (16 - length p mod 16) = 16 * (length p div 16) + 16"
    using div_mult_mod_eq [of "length p" 16] by linarith
  then show ?thesis by (simp add: pkcs_pad_def)
qed

lemma pkcs_unpad_pad: "pkcs_unpad (pkcs_pad p) = Some p"
proof -
  define pad where "pad = 16 - length p mod 16"
  have range: "1 \<le> pad" "pad \<le> 16" by (simp_all add: pad_def)
  have padded: "pkcs_pad p = p @ replicate pad (of_nat pad)"
    by (simp add: pkcs_pad_def pad_def)
  have ne: "replicate pad (of_nat pad :: byte) \<noteq> []" using range by auto
  have last: "last (pkcs_pad p) = of_nat pad"
    using ne by (simp add: padded)
  have un: "unat (of_nat pad :: byte) = pad"
    using range by (simp add: unat_of_nat)
  show ?thesis
    using range by (simp add: pkcs_unpad_def last un Let_def) (simp add: padded)
qed

lemma decrypt_encrypt:
  assumes cipher: "block_cipher E D" and iv: "length iv = 16"
    and same: "prepareKey key' = prepareKey key"
    and enc: "encrypt E iv dat key = Inr env"
  shows "decrypt D env key' = Inr (update_input dat)"
proof -
  define k where "k = prepareKey key"
  define p where "p = pkcs_pad (update_input dat)"
  define c where "c = cbc_encrypt E k iv p"
  define n where "n = length p div 16"
  have env: "env = iv @ c"
    using enc encrypt_envelope [OF iv, of E dat key] by (simp add: c_def p_def k_def)
  have len_k: "length k = 32" by (simp add: k_def prepareKey_length)
  have len_p: "length p = 16 * n"
    by (simp add: n_def p_def length_pkcs_pad)
  have n_pos: "0 < n" by (simp add: n_def p_def length_pkcs_pad)
  obtain iv1 where blocks: "cbc_encrypt_blocks E k n iv p = (c, iv1)"
    by (cases "cbc_encrypt_blocks E k n iv p") (simp add: c_def cbc_encrypt_def n_def)
  have dec: "cbc_decrypt_blocks D k n iv c = (p, iv1)" and len_c: "length c = 16 * n"
    using cbc_blocks_roundtrip [OF cipher len_k iv len_p blocks] by simp_all
  have c_ne: "c \<noteq> []" using len_c n_pos by auto
  have "cbc_decrypt D k iv c = p"
    using dec by (simp add: cbc_decrypt_def len_c)
  then have plain: "plaintext_of D k iv c = Some (update_input dat)"
    using c_ne len_c by (simp add: plaintext_of_def) (simp add: p_def pkcs_unpad_pad)
  have sized: "block_sized D" using cipher by (simp add: block_cipher_def)
  have "16 \<le> length env" using iv by (simp add: env)
  from decrypt_plaintext_of [OF sized this, of key']
  show ?thesis
    using iv plain by (simp add: env same k_def)
qed

section \<open>The asynchronous functions\<close>

lemma run_handlers_concat:
  "concat b1 = concat b2 \<Longrightarrow> run_handlers evs b1 = run_handlers evs b2"
proof (induction evs arbitrary: b1 b2)
  case Nil
  then show ?case by simp
next
  case (Cons ev evs)
  then show ?case by (cases ev) simp_all
qed

lemma run_handlers_push:
  "run_handlers (push chunk @ evs) buffers = run_handlers evs (buffers @ [chunk])"
proof (cases "chunk = []")
  case True
  then show ?thesis
    using run_handlers_concat [of buffers "buffers @ [chunk]" evs] by (simp add: push_def)
next
  case False
  then show ?thesis by (simp add: push_def)
qed

lemma encryptAsync_encrypt:
  "await_promise (encryptAsync E iv dat key) = Some (encrypt E iv dat key)"
proof (cases "createCipheriv (prepareKey key) iv")
  case (Inl e)
  then show ?thesis by (simp add: encryptAsync_def encrypt_def)
next
  case (Inr cipher)
  have same: "write_chunk dat = update_input dat" by (cases dat) simp_all
  obtain out cipher' where upd: "cipher_update E cipher (update_input dat) = (out, cipher')"
    by (cases "cipher_update E cipher (update_input dat)")
  have "run_handlers (push out @ push (cipher_final E cipher') @ [EndEv]) [iv]
          = Resolved (concat [iv, out, cipher_final E cipher'])"
    by (simp add: run_handlers_push)
  then show ?thesis
    using Inr upd by (simp add: encryptAsync_def encrypt_def cipher_stream_def same)
qed

lemma decryptAsync_decrypt:
  "await_call (decryptAsync D env key) = Some (decrypt D env key)"
proof -
  define iv where "iv = subarray env 0 IV_SIZE"
  define c where "c = subarray env IV_SIZE (length env)"
  show ?thesis
  proof (cases "createDecipheriv (prepareKey key) iv")
    case (Inl e)
    then show ?thesis by (simp add: decryptAsync_def decrypt_def iv_def)
  next
    case (Inr decipher)
    obtain out decipher' where upd: "decipher_update D decipher c = (out, decipher')"
      by (cases "decipher_update D decipher c")
    show ?thesis
    proof (cases "decipher_final D decipher'")
      case (Inl e)
      have "run_handlers (push out @ [ErrorEv e]) [] = Rejected e"
        by (simp add: run_handlers_push)
      then show ?thesis
        using Inr upd Inl
        by (simp add: decryptAsync_def decrypt_def decipher_stream_def iv_def [symmetric]
            c_def [symmetric])
    next
      case (Inr last_block)
      have "run_handlers (push out @ push last_block @ [EndEv]) []
              = Resolved (concat [out, last_block])"
        by (simp add: run_handlers_push)
      then show ?thesis
        using \<open>createDecipheriv (prepareKey key) iv = Inr decipher\<close> upd Inr
        by (simp add: decryptAsync_def decrypt_def decipher_stream_def iv_def [symmetric]
            c_def [symmetric])
    qed
  qed
qed

section \<open>Further facts\<close>

lemma xor_block_cipher: "block_cipher xor_cipher xor_cipher"
proof -
  have sized: "block_sized xor_cipher"
    by (simp add: block_sized_def xor_cipher_def length_xor_bytes)
  have "xor_cipher key (xor_cipher key blk) = blk" if "length key = 32" "length blk = 16"
    for key blk
    using that xor_bytes_cancel [of blk "take 16 key"] by (simp add: xor_cipher_def)
  then show ?thesis
    using sized by (simp add: block_cipher_def)
qed

lemma cbc_encrypt_blocks_length:
  assumes sized: "block_sized E" and key: "length key = 32"
  shows "length iv = 16 \<Longrightarrow> length p = 16 * n \<Longrightarrow>
         length (fst (cbc_encrypt_blocks E key n iv p)) = 16 * n"
proof (induction n arbitrary: iv p)
  case 0
  then show ?case by simp
next
  case (Suc n)
  define out where "out = E key (xor_bytes (take 16 p) iv)"
  have "length (xor_bytes (take 16 p) iv) = 16"
    using Suc.prems by (simp add: length_xor_bytes)
  then have len_out: "length out = 16"
    using sized key by (simp add: block_sized_def out_def)
  have "length (drop 16 p) = 16 * n" using Suc.prems by simp
  from Suc.IH [OF len_out this] show ?case
    using len_out
    by (cases "cbc_encrypt_blocks E key n out (drop 16 p)") (simp add: Let_def out_def)
qed

lemma length_cbc_encrypt_pad:
  assumes "block_sized E" "length iv = 16"
  shows "length (cbc_encrypt E (prepareKey key) iv (pkcs_pad p)) = 16 * (length p div 16 + 1)"
proof -
  have "length (pkcs_pad p) = 16 * (length (pkcs_pad p) div 16)"
    by (simp add: length_pkcs_pad)
  from cbc_encrypt_blocks_length [OF assms(1) prepareKey_length assms(2) this]
  show ?thesis
    by (simp add: cbc_encrypt_def length_pkcs_pad)
qed

lemma decrypt_short: "length env < 16 \<Longrightarrow> decrypt D env key = Inl InvalidIV"
  by (simp add: decrypt_def subarray_def IV_SIZE_def createDecipheriv_def)

lemma unpadblock_not_InvalidIV: "unpadblock blk \<noteq> Inl InvalidIV"
  by (simp add: unpadblock_def Let_def)

lemma decrypt_long: "16 \<le> length env \<Longrightarrow> decrypt D env key \<noteq> Inl InvalidIV"
  using unpadblock_not_InvalidIV
  by (auto simp add: decrypt_def subarray_def IV_SIZE_def createDecipheriv_def prepareKey_length
      decipher_final_def Let_def split: prod.splits sum.splits)

lemma prepareKey_append_zeros:
  "length key < 32 \<Longrightarrow> prepareKey (key @ replicate n 0) = prepareKey key"
proof (cases "32 \<le> length key + n")
  case True
  assume "length key < 32"
  then have "take (32 - length key) (replicate n (0 :: byte)) = replicate (32 - length key) 0"
    using True by simp
  then show ?thesis
    using True \<open>length key < 32\<close>
    by (simp add: prepareKey_def subarray_def alloc_zeros_def KEY_SIZE_def)
next
  case False
  assume "length key < 32"
  have "replicate n (0 :: byte) @ replicate (32 - (length key + n)) 0
          = replicate (32 - length key) 0"
    using False by (simp add: replicate_add [symmetric])
  then show ?thesis
    using False \<open>length key < 32\<close>
    by (simp add: prepareKey_def alloc_zeros_def KEY_SIZE_def)
qed

lemma prepareKey_same_prefix:
  "32 \<le> length k1 \<Longrightarrow> 32 \<le> length k2 \<Longrightarrow> take 32 k1 = take 32 k2 \<Longrightarrow>
   prepareKey k1 = prepareKey k2"
  by (simp add: prepareKey_long)

section \<open>UTF-8\<close>

lemma utf8_encode_code_points: "utf8_encode S = concat (map utf8_code_point (code_points S))"
  by (induction S rule: utf8_encode.induct) simp_all

lemma lone_unit_bound: "lone_unit u < 0x110000"
proof -
  have "unat u < 2 ^ 16" using unsigned_less [of u] by simp
  then show ?thesis by (simp add: lone_unit_def)
qed

lemma surrogate_pair_bound:
  assumes "is_high_surrogate u" and "is_low_surrogate v"
  shows "0x10000 + (unat u - 0xD800) * 0x400 + (unat v - 0xDC00) < (0x110000 :: nat)"
proof -
  have "unat u < 0xDC00" and "unat v < 0xE000"
    using assms by (simp_all add: is_high_surrogate_def is_low_surrogate_def)
  then show ?thesis by linarith
qed

lemma code_points_bound: "\<forall>cp \<in> set (code_points S). cp < 0x110000"
proof (induction S rule: code_points.induct)
  case 1
  then show ?case by simp
next
  case (2 u)
  then show ?case by (simp add: lone_unit_bound)
next
  case (3 u v rest)
  show ?case
  proof (cases "is_high_surrogate u \<and> is_low_surrogate v")
    case True
    define cp where "cp = 0x10000 + (unat u - 0xD800) * 0x400 + (unat v - 0xDC00)"
    have "cp < 0x110000"
      unfolding cp_def using True by (intro surrogate_pair_bound) simp_all
    moreover have "code_points (u # v # rest) = cp # code_points rest"
      using True by (simp add: cp_def)
    moreover have "\<forall>cp \<in> set (code_points rest). cp < 0x110000"
      using 3(1) True by simp
    ultimately show ?thesis
      by simp
  next
    case False
    have "code_points (u # v # rest) = lone_unit u # code_points (v # rest)"
      by (simp add: False)
    moreover have "\<forall>cp \<in> set (code_points (v # rest)). cp < 0x110000"
      using 3(2) False by simp
    ultimately show ?thesis
      by (simp add: lone_unit_bound)
  qed
qed

lemma byte_of_nat: "n < 256 \<Longrightarrow> unat (of_nat n :: byte) = n"
  by (simp add: unat_of_nat)

lemma utf8_decode_two:
  assumes "unat b = 0xC0 + hi" and "hi < 0x20" and "unat c = 0x80 + lo" and "lo < 0x40"
  shows "utf8_decode (b # c # rest) = map_option (Cons (hi * 0x40 + lo)) (utf8_decode rest)"
  using assms by (simp add: continuation_def)

lemma utf8_decode_three:
  assumes "unat b = 0xE0 + hi" and "hi < 0x10" and "unat c1 = 0x80 + mid" and "mid < 0x40"
    and "unat c2 = 0x80 + lo" and "lo < 0x40"
  shows "utf8_decode (b # c1 # c2 # rest)
           = map_option (Cons (hi * 0x1000 + mid * 0x40 + lo)) (utf8_decode rest)"
  using assms by (simp add: continuation_def)

lemma utf8_decode_four:
  assumes "unat b = 0xF0 + t4" and "t4 < 0x10" and "unat c1 = 0x80 + hi" and "hi < 0x40"
    and "unat c2 = 0x80 + mid" and "mid < 0x40" and "unat c3 = 0x80 + lo" and "lo < 0x40"
  shows "utf8_decode (b # c1 # c2 # c3 # rest)
           = map_option (Cons (t4 * 0x40000 + hi * 0x1000 + mid * 0x40 + lo)) (utf8_decode rest)"
  using assms by (simp add: continuation_def)

lemma utf8_decode_code_point:
  assumes "cp < 0x110000"
  shows "utf8_decode (utf8_code_point cp @ rest) = map_option (Cons cp) (utf8_decode rest)"
proof -
  have e0: "cp div 0x40 * 0x40 + cp mod 0x40 = cp"
    by (rule div_mult_mod_eq)
  have e1: "cp div 0x1000 * 0x40 + cp div 0x40 mod 0x40 = cp div 0x40"
    using div_mult_mod_eq [of "cp div 0x40" "0x40"] by (simp add: div_mult2_eq [symmetric])
  have e2: "cp div 0x40000 * 0x40 + cp div 0x1000 mod 0x40 = cp div 0x1000"
    using div_mult_mod_eq [of "cp div 0x1000" "0x40"] by (simp add: div_mult2_eq [symmetric])
  consider (one) "cp < 0x80" | (two) "0x80 \<le> cp" "cp < 0x800"
    | (three) "0x800 \<le> cp" "cp < 0x10000" | (four) "0x10000 \<le> cp"
    by linarith
  then show ?thesis
  proof cases
    case one
    then have "utf8_code_point cp = [of_nat cp]"
      by (simp add: utf8_code_point_def)
    then show ?thesis
      using one by (simp add: byte_of_nat)
  next
    case two
    define b :: byte where "b = of_nat (0xC0 + cp div 0x40)"
    define c :: byte where "c = of_nat (0x80 + cp mod 0x40)"
    have hi: "cp div 0x40 < 0x20" using two by simp
    have enc: "utf8_code_point cp = [b, c]"
      using two by (simp add: utf8_code_point_def b_def c_def)
    have ub: "unat b = 0xC0 + cp div 0x40"
      unfolding b_def using hi by (intro byte_of_nat) simp
    have uc: "unat c = 0x80 + cp mod 0x40"
      unfolding c_def by (intro byte_of_nat) simp
    have "utf8_decode (b # c # rest)
            = map_option (Cons (cp div 0x40 * 0x40 + cp mod 0x40)) (utf8_decode rest)"
      using ub hi uc by (rule utf8_decode_two) simp
    then show ?thesis
      by (simp only: enc e0 append_Cons append_Nil)
  next
    case three
    define b :: byte where "b = of_nat (0xE0 + cp div 0x1000)"
    define c1 :: byte where "c1 = of_nat (0x80 + cp div 0x40 mod 0x40)"
    define c2 :: byte where "c2 = of_nat (0x80 + cp mod 0x40)"
    have hi: "cp div 0x1000 < 0x10" using three by simp
    have enc: "utf8_code_point cp = [b, c1, c2]"
      using three by (simp add: utf8_code_point_def b_def c1_def c2_def)
    have ub: "unat b = 0xE0 + cp div 0x1000"
      unfolding b_def using hi by (intro byte_of_nat) simp
    have u1: "unat c1 = 0x80 + cp div 0x40 mod 0x40"
      unfolding c1_def by (intro byte_of_nat) simp
    have u2: "unat c2 = 0x80 + cp mod 0x40"
      unfolding c2_def by (intro byte_of_nat) simp
    have sum: "cp div 0x1000 * 0x1000 + cp div 0x40 mod 0x40 * 0x40 + cp mod 0x40 = cp"
      using e0 e1 by linarith
    have "utf8_decode (b # c1 # c2 # rest)
            = map_option (Cons (cp div 0x1000 * 0x1000 + cp div 0x40 mod 0x40 * 0x40 + cp mod 0x40))
                (utf8_decode rest)"
      using ub hi u1 _ u2 by (rule utf8_decode_three) simp_all
    then show ?thesis
      by (simp only: enc sum append_Cons append_Nil)
  next
    case four
    define b :: byte where "b = of_nat (0xF0 + cp div 0x40000)"
    define c1 :: byte where "c1 = of_nat (0x80 + cp div 0x1000 mod 0x40)"
    define c2 :: byte where "c2 = of_nat (0x80 + cp div 0x40 mod 0x40)"
    define c3 :: byte where "c3 = of_nat (0x80 + cp mod 0x40)"
    have t4: "cp div 0x40000 < 0x10" using assms by simp
    have enc: "utf8_code_point cp = [b, c1, c2, c3]"
      using four by (simp add: utf8_code_point_def b_def c1_def c2_def c3_def)
    have ub: "unat b = 0xF0 + cp div 0x40000"
      unfolding b_def using t4 by (intro byte_of_nat) simp
    have u1: "unat c1 = 0x80 + cp div 0x1000 mod 0x40"
      unfolding c1_def by (intro byte_of_nat) simp
    have u2: "unat c2 = 0x80 + cp div 0x40 mod 0x40"
      unfolding c2_def by (intro byte_of_nat) simp
    have u3: "unat c3 = 0x80 + cp mod 0x40"
      unfolding c3_def by (intro byte_of_nat) simp
    have sum: "cp div 0x40000 * 0x40000 + cp div 0x1000 mod 0x40 * 0x1000
                 + cp div 0x40 mod 0x40 * 0x40 + cp mod 0x40 = cp"
      using e0 e1 e2 by linarith
    have "utf8_decode (b # c1 # c2 # c3 # rest)
            = map_option (Cons (cp div 0x40000 * 0x40000 + cp div 0x1000 mod 0x40 * 0x1000
                                + cp div 0x40 mod 0x40 * 0x40 + cp mod 0x40))
                (utf8_decode rest)"
      using ub t4 u1 _ u2 _ u3 by (rule utf8_decode_four) simp_all
    then show ?thesis
      by (simp only: enc sum append_Cons append_Nil)
  qed
qed

lemma utf8_decode_concat:
  "\<forall>cp \<in> set cps. cp < 0x110000 \<Longrightarrow>
   utf8_decode (concat (map utf8_code_point cps)) = Some cps"
  by (induction cps) (simp_all add: utf8_decode_code_point del: utf8_decode.simps(2))

lemma utf8_decode_encode: "utf8_decode (utf8_encode S) = Some (code_points S)"
  using utf8_decode_concat [OF code_points_bound] by (simp add: utf8_encode_code_points)

section \<open>Settled promises\<close>

lemma encryptAsync_Resolved:
  assumes "encrypt E iv dat K = Inr env"
  shows "encryptAsync E iv dat K = Resolved env"
proof -
  have "await_promise (encryptAsync E iv dat K) = Some (Inr env)"
    using encryptAsync_encrypt [of E iv dat K] assms by simp
  then show ?thesis
    by (cases "encryptAsync E iv dat K") simp_all
qed

lemma decryptAsync_Resolved:
  assumes "decrypt D env K = Inr p"
  shows "decryptAsync D env K = Inr (Resolved p)"
proof -
  have awaited: "await_call (decryptAsync D env K) = Some (Inr p)"
    using decryptAsync_decrypt [of D env K] assms by simp
  show ?thesis
  proof (cases "decryptAsync D env K")
    case (Inl e)
    then show ?thesis using awaited by simp
  next
    case (Inr pr)
    then show ?thesis using awaited by (cases pr) simp_all
  qed
qed

section \<open>Strings of ASCII, answers to the prompt\<close>

lemma utf8_encode_ascii:
  "\<forall>u \<in> set S. unat u < 0x80 \<Longrightarrow> utf8_encode S = map (\<lambda>u. of_nat (unat u)) S"
proof (induction S rule: utf8_encode.induct)
  case 1
  then show ?case by simp
next
  case (2 u)
  then show ?case
    by (simp add: lone_unit_def is_high_surrogate_def is_low_surrogate_def utf8_code_point_def)
next
  case (3 u v rest)
  have u: "unat u < 0x80" using 3(3) by simp
  then have no_pair: "\<not> (is_high_surrogate u \<and> is_low_surrogate v)"
    by (simp add: is_high_surrogate_def)
  have first: "utf8_code_point (lone_unit u) = [of_nat (unat u)]"
    using u by (simp add: lone_unit_def is_high_surrogate_def is_low_surrogate_def
        utf8_code_point_def)
  have rest: "utf8_encode (v # rest) = map (\<lambda>u. of_nat (unat u)) (v # rest)"
    using 3(2) [OF no_pair] 3(3) by simp
  show ?case
    by (simp add: no_pair first rest)
qed

lemma askQuestion_nonempty_line:
  assumes "line \<noteq> []"
  shows "askQuestion lower prompt (Some ys) line \<longleftrightarrow> lower line \<in> set (map lower ys)"
    and "askQuestion lower prompt None line
           \<longleftrightarrow> lower line = lower [0x79, 0x65, 0x73] \<or> lower line = lower [0x79]"
  using assms by (auto simp add: askQuestion_def yes_param_def default_yes_def read_def)

section \<open>The claims\<close>

text \<open>
  C1. Round trip: for every plaintext \<open>P\<close>, every password \<open>K\<close> and every 16-byte IV
  drawn inside \<open>encrypt\<close>, encryption succeeds and decrypting its envelope with the same
  password returns \<open>P\<close>. The block functions are any cipher on 16-byte blocks.
\<close>

theorem decrypt_encrypt_roundtrip:
  assumes "block_cipher E D" and "length iv = 16"
  shows "\<exists>env. encrypt E iv (Buf P) K = Inr env \<and> decrypt D env K = Inr P"
proof -
  obtain env where enc: "encrypt E iv (Buf P) K = Inr env"
    using encrypt_envelope [OF assms(2)] by blast
  have "decrypt D env K = Inr (update_input (Buf P))"
    using decrypt_encrypt [OF assms refl enc] .
  then show ?thesis using enc by simp
qed

theorem decrypt_encrypt_roundtrip_witness:
  "encrypt xor_cipher [161, 27, 44, 9, 250, 3, 77, 18, 200, 5, 64, 99, 31, 7, 128, 42]
     (Buf [72, 101, 108, 108, 111, 44, 32, 70, 114, 97, 110, 99, 105, 115, 33])
     [84, 104, 105, 115, 32, 105, 115, 32, 97, 32, 119, 101, 97, 107, 32, 107, 101, 121]
   = Inr [161, 27, 44, 9, 250, 3, 77, 18, 200, 5, 64, 99, 31, 7, 128, 42, 189, 22, 41,
          22, 181, 70, 30, 116, 219, 68, 89, 101, 23, 31, 129, 64]
   \<and> decrypt xor_cipher
         [161, 27, 44, 9, 250, 3, 77, 18, 200, 5, 64, 99, 31, 7, 128, 42, 189, 22, 41,
          22, 181, 70, 30, 116, 219, 68, 89, 101, 23, 31, 129, 64]
         [84, 104, 105, 115, 32, 105, 115, 32, 97, 32, 119, 101, 97, 107, 32, 107, 101, 121]
       = Inr [72, 101, 108, 108, 111, 44, 32, 70, 114, 97, 110, 99, 105, 115, 33]"
proof -
  have len: "length ([161, 27, 44, 9, 250, 3, 77, 18, 200, 5, 64, 99, 31, 7, 128, 42] :: buffer) = 16"
    by simp
  have enc: "encrypt xor_cipher [161, 27, 44, 9, 250, 3, 77, 18, 200, 5, 64, 99, 31, 7, 128, 42]
     (Buf [72, 101, 108, 108, 111, 44, 32, 70, 114, 97, 110, 99, 105, 115, 33])
     [84, 104, 105, 115, 32, 105, 115, 32, 97, 32, 119, 101, 97, 107, 32, 107, 101, 121]
   = Inr [161, 27, 44, 9, 250, 3, 77, 18, 200, 5, 64, 99, 31, 7, 128, 42, 189, 22, 41,
          22, 181, 70, 30, 116, 219, 68, 89, 101, 23, 31, 129, 64]"
    by code_simp
  show ?thesis
    using decrypt_encrypt_roundtrip [OF xor_block_cipher len,
        of "[72, 101, 108, 108, 111, 44, 32, 70, 114, 97, 110, 99, 105, 115, 33]"
           "[84, 104, 105, 115, 32, 105, 115, 32, 97, 32, 119, 101, 97, 107, 32, 107, 101, 121]"]
    unfolding enc by simp
qed

text \<open>
  C2. \<open>prepareKey\<close> is a total function of its argument alone. For every password it
  returns exactly 32 bytes: the first 32 bytes of a password of at least 32 bytes, and a
  shorter password followed by \<open>32 - length\<close> zero bytes. The empty password gives 32
  zero bytes and a 32-byte password is returned unchanged.
\<close>

theorem prepareKey_spec:
  "length (prepareKey key) = 32
   \<and> (32 \<le> length key \<longrightarrow> prepareKey key = take 32 key)
   \<and> (length key < 32 \<longrightarrow> prepareKey key = key @ replicate (32 - length key) 0)
   \<and> prepareKey [] = replicate 32 0
   \<and> (length key = 32 \<longrightarrow> prepareKey key = key)"
proof -
  have empty: "prepareKey [] = replicate 32 0"
    using prepareKey_short [of "[]"] by simp
  have exact: "length key = 32 \<longrightarrow> prepareKey key = key"
    using prepareKey_long [of key] by simp
  show ?thesis
    using prepareKey_length prepareKey_long prepareKey_short empty exact by blast
qed

theorem prepareKey_spec_witness:
  "length (prepareKey [1, 2, 3, 4]) = 32
   \<and> prepareKey [1, 2, 3, 4] = [1, 2, 3, 4] @ replicate 28 0
   \<and> prepareKey (replicate 36 7) = replicate 32 7
   \<and> prepareKey (replicate 32 9) = replicate 32 9"
proof -
  have short: "length ([1, 2, 3, 4] :: buffer) < 32" by simp
  have long: "32 \<le> length (replicate 36 (7 :: byte))" by simp
  have exact: "length (replicate 32 (9 :: byte)) = 32" by simp
  show ?thesis
    using prepareKey_spec [of "[1, 2, 3, 4]"] prepareKey_spec [of "replicate 36 7"]
      prepareKey_spec [of "replicate 32 9"] short long exact
    by simp
qed

text \<open>
  C3. Length precondition: for every password, \<open>decrypt\<close> fails with the invalid-IV
  error exactly on the inputs shorter than 16 bytes (the empty and the 15-byte input
  among them), and that error is not the one raised on bad padding nor the one raised on a
  wrong final block length.
\<close>

theorem decrypt_length_precondition:
  "(decrypt D env K = Inl InvalidIV \<longleftrightarrow> length env < 16)
   \<and> InvalidIV \<noteq> BadDecrypt \<and> InvalidIV \<noteq> WrongFinalBlockLength"
proof -
  have "decrypt D env K = Inl InvalidIV \<longleftrightarrow> length env < 16"
    using decrypt_short [of env D K] decrypt_long [of env D K] by (cases "length env < 16") auto
  then show ?thesis by simp
qed

theorem decrypt_length_precondition_witness:
  "decrypt xor_cipher [] [1, 2, 3] = Inl InvalidIV
   \<and> decrypt xor_cipher (replicate 15 0) [1, 2, 3] = Inl InvalidIV
   \<and> decrypt xor_cipher (replicate 16 0) [1, 2, 3] \<noteq> Inl InvalidIV"
  using decrypt_length_precondition [of xor_cipher "[]" "[1, 2, 3]"]
    decrypt_length_precondition [of xor_cipher "replicate 15 0" "[1, 2, 3]"]
    decrypt_length_precondition [of xor_cipher "replicate 16 0" "[1, 2, 3]"]
  by simp

text \<open>
  C4. Envelope layout: the output of \<open>encrypt\<close> is the IV of that call followed by the
  CBC ciphertext of the block-padded plaintext; it is \<open>16 + 16 * (length P div 16 + 1)\<close>
  bytes long, hence at least 16.
\<close>

theorem encrypt_envelope_layout:
  assumes "block_sized E" and "length iv = 16"
  shows "encrypt E iv (Buf P) K = Inr (iv @ cbc_encrypt E (prepareKey K) iv (pkcs_pad P))
         \<and> length (iv @ cbc_encrypt E (prepareKey K) iv (pkcs_pad P))
             = 16 + 16 * (length P div 16 + 1)
         \<and> 16 \<le> length (iv @ cbc_encrypt E (prepareKey K) iv (pkcs_pad P))"
  using encrypt_envelope [OF assms(2), of E "Buf P" K]
    length_cbc_encrypt_pad [OF assms, of K P] assms(2)
  by simp

theorem encrypt_envelope_layout_witness:
  "encrypt xor_cipher [161, 27, 44, 9, 250, 3, 77, 18, 200, 5, 64, 99, 31, 7, 128, 42]
     (Buf (replicate 16 7)) [1]
   = Inr ([161, 27, 44, 9, 250, 3, 77, 18, 200, 5, 64, 99, 31, 7, 128, 42]
          @ cbc_encrypt xor_cipher (prepareKey [1])
              [161, 27, 44, 9, 250, 3, 77, 18, 200, 5, 64, 99, 31, 7, 128, 42] (pkcs_pad (replicate 16 7)))
   \<and> length ([161, 27, 44, 9, 250, 3, 77, 18, 200, 5, 64, 99, 31, 7, 128, 42]
          @ cbc_encrypt xor_cipher (prepareKey [1])
              [161, 27, 44, 9, 250, 3, 77, 18, 200, 5, 64, 99, 31, 7, 128, 42] (pkcs_pad (replicate 16 7)))
       = 48"
proof -
  have sized: "block_sized xor_cipher"
    using xor_block_cipher by (simp add: block_cipher_def)
  have len: "length ([161, 27, 44, 9, 250, 3, 77, 18, 200, 5, 64, 99, 31, 7, 128, 42] :: buffer) = 16"
    by simp
  show ?thesis
    using encrypt_envelope_layout [OF sized len, of "replicate 16 7" "[1]"] by simp
qed

text \<open>
  C5. Two runs: two calls of \<open>encrypt\<close> on the same plaintext and password whose IVs differ
  give two different envelopes, which differ within their first 16 bytes, and each of them
  decrypts to the plaintext under the password.
\<close>

theorem encrypt_twice:
  assumes "block_cipher E D" and "length iv1 = 16" and "length iv2 = 16" and "iv1 \<noteq> iv2"
  shows "\<exists>env1 env2.
           encrypt E iv1 (Buf P) K = Inr env1 \<and> encrypt E iv2 (Buf P) K = Inr env2
           \<and> env1 \<noteq> env2 \<and> take 16 env1 \<noteq> take 16 env2
           \<and> decrypt D env1 K = Inr P \<and> decrypt D env2 K = Inr P"
proof -
  define c1 where "c1 = cbc_encrypt E (prepareKey K) iv1 (pkcs_pad (update_input (Buf P)))"
  define c2 where "c2 = cbc_encrypt E (prepareKey K) iv2 (pkcs_pad (update_input (Buf P)))"
  have e1: "encrypt E iv1 (Buf P) K = Inr (iv1 @ c1)"
    using encrypt_envelope [OF assms(2)] by (simp add: c1_def)
  have e2: "encrypt E iv2 (Buf P) K = Inr (iv2 @ c2)"
    using encrypt_envelope [OF assms(3)] by (simp add: c2_def)
  have d1: "decrypt D (iv1 @ c1) K = Inr P"
    using decrypt_encrypt [OF assms(1,2) refl e1] by simp
  have d2: "decrypt D (iv2 @ c2) K = Inr P"
    using decrypt_encrypt [OF assms(1,3) refl e2] by simp
  have heads: "take 16 (iv1 @ c1) \<noteq> take 16 (iv2 @ c2)"
    using assms(2-4) by simp
  have "iv1 @ c1 \<noteq> iv2 @ c2"
    using assms(2-4) by simp
  then show ?thesis
    using e1 e2 d1 d2 heads \<open>iv1 @ c1 \<noteq> iv2 @ c2\<close> by blast
qed

theorem encrypt_twice_witness:
  "\<exists>env1 env2.
     encrypt xor_cipher (replicate 16 1) (Buf [72, 105]) [107] = Inr env1
     \<and> encrypt xor_cipher (replicate 16 2) (Buf [72, 105]) [107] = Inr env2
     \<and> env1 \<noteq> env2 \<and> take 16 env1 \<noteq> take 16 env2
     \<and> decrypt xor_cipher env1 [107] = Inr [72, 105]
     \<and> decrypt xor_cipher env2 [107] = Inr [72, 105]"
proof -
  have l1: "length (replicate 16 (1 :: byte)) = 16" by simp
  have l2: "length (replicate 16 (2 :: byte)) = 16" by simp
  have ne: "replicate 16 (1 :: byte) \<noteq> replicate 16 2" by simp
  show ?thesis
    using encrypt_twice [OF xor_block_cipher l1 l2 ne] .
qed

text \<open>
  C6. Synchronous and asynchronous variants agree: awaiting \<open>encryptAsync\<close> gives the
  result of \<open>encrypt\<close> for the same IV, awaiting \<open>decryptAsync\<close> gives the result of
  \<open>decrypt\<close>, errors included, and neither promise stays pending. In particular an
  envelope of \<open>encryptAsync\<close> decrypts with \<open>decrypt\<close> and an envelope of
  \<open>encrypt\<close> decrypts with \<open>decryptAsync\<close>.
\<close>

theorem async_equivalence:
  "await_promise (encryptAsync E iv dat K) = Some (encrypt E iv dat K)
   \<and> await_call (decryptAsync D env K) = Some (decrypt D env K)
   \<and> (block_cipher E D \<longrightarrow> length iv = 16 \<longrightarrow>
        (\<exists>e. encryptAsync E iv (Buf P) K = Resolved e \<and> decrypt D e K = Inr P)
        \<and> (\<exists>e. encrypt E iv (Buf P) K = Inr e \<and> decryptAsync D e K = Inr (Resolved P)))"
proof -
  have cross: "(\<exists>e. encryptAsync E iv (Buf P) K = Resolved e \<and> decrypt D e K = Inr P)
        \<and> (\<exists>e. encrypt E iv (Buf P) K = Inr e \<and> decryptAsync D e K = Inr (Resolved P))"
    if cipher: "block_cipher E D" and iv: "length iv = 16"
  proof -
    obtain e where enc: "encrypt E iv (Buf P) K = Inr e"
      using encrypt_envelope [OF iv] by blast
    have dec: "decrypt D e K = Inr P"
      using decrypt_encrypt [OF cipher iv refl enc] by simp
    have "await_promise (encryptAsync E iv (Buf P) K) = Some (Inr e)"
      using encryptAsync_encrypt [of E iv "Buf P" K] enc by simp
    then have a: "encryptAsync E iv (Buf P) K = Resolved e"
      by (cases "encryptAsync E iv (Buf P) K") simp_all
    have "await_call (decryptAsync D e K) = Some (Inr P)"
      using decryptAsync_decrypt [of D e K] dec by simp
    then have b: "decryptAsync D e K = Inr (Resolved P)"
    proof (cases "decryptAsync D e K")
      case (Inl err)
      then show ?thesis using \<open>await_call (decryptAsync D e K) = Some (Inr P)\<close> by simp
    next
      case (Inr pr)
      then show ?thesis
        using \<open>await_call (decryptAsync D e K) = Some (Inr P)\<close> by (cases pr) simp_all
    qed
    show ?thesis using a b enc dec by blast
  qed
  show ?thesis
    using encryptAsync_encrypt [of E iv dat K] decryptAsync_decrypt [of D env K] cross
    by blast
qed

theorem async_equivalence_witness:
  "await_promise (encryptAsync xor_cipher (replicate 16 3) (Buf [1, 2, 3]) [9])
     = Some (encrypt xor_cipher (replicate 16 3) (Buf [1, 2, 3]) [9])
   \<and> await_call (decryptAsync xor_cipher (replicate 20 0) [9])
     = Some (decrypt xor_cipher (replicate 20 0) [9])
   \<and> (\<exists>e. encryptAsync xor_cipher (replicate 16 3) (Buf [1, 2, 3]) [9] = Resolved e
          \<and> decrypt xor_cipher e [9] = Inr [1, 2, 3])
   \<and> (\<exists>e. encrypt xor_cipher (replicate 16 3) (Buf [1, 2, 3]) [9] = Inr e
          \<and> decryptAsync xor_cipher e [9] = Inr (Resolved [1, 2, 3]))"
proof -
  have len: "length (replicate 16 (3 :: byte)) = 16" by simp
  show ?thesis
    using async_equivalence [of xor_cipher "replicate 16 3" "Buf [1, 2, 3]" "[9]"
        xor_cipher "replicate 20 0" "[1, 2, 3]"] xor_block_cipher len
    by blast
qed

text \<open>
  C7. All or nothing: for an envelope of at least 16 bytes whose ciphertext does not stand
  for a plaintext under the prepared key and the IV, \<open>decrypt\<close> fails with an error of
  \<open>final\<close> and returns no bytes: the bad-decrypt error when the ciphertext is whole blocks
  with invalid padding, the wrong-final-block-length error when it is empty or not whole
  blocks. Neither is the invalid-IV error.
\<close>

theorem decrypt_integrity:
  assumes "block_sized D" and "16 \<le> length env"
    and "plaintext_of D (prepareKey K) (take 16 env) (drop 16 env) = None"
  shows "decrypt D env K =
           Inl (if drop 16 env \<noteq> [] \<and> length (drop 16 env) mod 16 = 0
                then BadDecrypt else WrongFinalBlockLength)
         \<and> (\<forall>p. decrypt D env K \<noteq> Inr p) \<and> decrypt D env K \<noteq> Inl InvalidIV"
  using decrypt_plaintext_of [OF assms(1,2), of K] assms(3) by simp

theorem decrypt_integrity_witness:
  "decrypt xor_cipher (replicate 32 0) [] = Inl BadDecrypt
   \<and> decrypt xor_cipher (replicate 16 0) [] = Inl WrongFinalBlockLength
   \<and> decrypt xor_cipher (replicate 40 0) [] = Inl WrongFinalBlockLength"
proof -
  have sized: "block_sized xor_cipher"
    using xor_block_cipher by (simp add: block_cipher_def)
  have l1: "16 \<le> length (replicate 32 (0 :: byte))" by simp
  have l2: "16 \<le> length (replicate 16 (0 :: byte))" by simp
  have l3: "16 \<le> length (replicate 40 (0 :: byte))" by simp
  have p1: "plaintext_of xor_cipher (prepareKey []) (take 16 (replicate 32 0))
              (drop 16 (replicate 32 0)) = None"
    by code_simp
  have p2: "plaintext_of xor_cipher (prepareKey []) (take 16 (replicate 16 0))
              (drop 16 (replicate 16 0)) = None"
    by (simp add: plaintext_of_def)
  have p3: "plaintext_of xor_cipher (prepareKey []) (take 16 (replicate 40 0))
              (drop 16 (replicate 40 0)) = None"
    by (simp add: plaintext_of_def)
  show ?thesis
    using decrypt_integrity [OF sized l1 p1] decrypt_integrity [OF sized l2 p2]
      decrypt_integrity [OF sized l3 p3]
    by simp
qed

text \<open>
  C8. The confirmation is meant to be true exactly when the lowercased input is the
  lowercasing of an accepted token. On the empty line this fails: \<open>read\<close> answers with
  its default, the tokens joined by a slash, so with the single token \<open>oui\<close> the empty
  line is affirmative although it is no token, while with the tokens \<open>yes\<close> and \<open>y\<close>,
  given or by default, it is negative.
\<close>

theorem askQuestion_empty_line:
  "askQuestion ascii_lower [0x3F] (Some [[0x6F, 0x75, 0x69]]) []
   \<and> ascii_lower [] \<notin> set (map ascii_lower [[0x6F, 0x75, 0x69]])
   \<and> \<not> askQuestion ascii_lower [0x3F] None []
   \<and> \<not> askQuestion ascii_lower [0x3F] (Some [[0x79, 0x65, 0x73], [0x79]]) []"
  by (simp add: askQuestion_def yes_param_def default_yes_def read_def ascii_lower_def)

text \<open>
  C9. Interchangeable passwords: two passwords with the same prepared key decrypt each
  other's envelopes. Such are a password shorter than 32 bytes and the same with zero
  bytes appended, and two passwords of at least 32 bytes with the same first 32 bytes.
\<close>

theorem interchangeable_passwords:
  assumes "block_cipher E D" and "length iv = 16"
  shows "(prepareKey K1 = prepareKey K2 \<longrightarrow>
            (\<exists>env. encrypt E iv (Buf P) K1 = Inr env \<and> decrypt D env K2 = Inr P))
         \<and> (length K1 < 32 \<longrightarrow> prepareKey (K1 @ replicate n 0) = prepareKey K1)
         \<and> (32 \<le> length K1 \<longrightarrow> 32 \<le> length K2 \<longrightarrow> take 32 K1 = take 32 K2 \<longrightarrow>
              prepareKey K1 = prepareKey K2)"
proof -
  have "\<exists>env. encrypt E iv (Buf P) K1 = Inr env \<and> decrypt D env K2 = Inr P"
    if same: "prepareKey K1 = prepareKey K2"
  proof -
    obtain env where enc: "encrypt E iv (Buf P) K1 = Inr env"
      using encrypt_envelope [OF assms(2)] by blast
    have "decrypt D env K2 = Inr (update_input (Buf P))"
      using decrypt_encrypt [OF assms same [symmetric] enc] .
    then show ?thesis using enc by simp
  qed
  then show ?thesis
    using prepareKey_append_zeros [of K1 n] prepareKey_same_prefix [of K1 K2] by blast
qed

theorem interchangeable_passwords_witness:
  "prepareKey [107, 101, 121] = prepareKey [107, 101, 121, 0, 0]
   \<and> (\<exists>env. encrypt xor_cipher (replicate 16 5) (Buf [1, 2, 3]) [107, 101, 121] = Inr env
          \<and> decrypt xor_cipher env [107, 101, 121, 0, 0] = Inr [1, 2, 3])
   \<and> prepareKey (replicate 32 7 @ [1]) = prepareKey (replicate 32 7 @ [2, 3])
   \<and> (\<exists>env. encrypt xor_cipher (replicate 16 5) (Buf [1, 2, 3]) (replicate 32 7 @ [1]) = Inr env
          \<and> decrypt xor_cipher env (replicate 32 7 @ [2, 3]) = Inr [1, 2, 3])"
proof -
  have len: "length (replicate 16 (5 :: byte)) = 16" by simp
  have short: "length ([107, 101, 121] :: buffer) < 32" by simp
  have k1: "prepareKey [107, 101, 121] = prepareKey [107, 101, 121, 0, 0]"
    using interchangeable_passwords [OF xor_block_cipher len, of "[107, 101, 121]" _ _ 2] short
    by (simp add: numeral_2_eq_2)
  have k2: "prepareKey (replicate 32 7 @ [1]) = prepareKey (replicate 32 7 @ [2, 3])"
    using interchangeable_passwords [OF xor_block_cipher len, of "replicate 32 7 @ [1]"
        "replicate 32 7 @ [2, 3]"]
    by simp
  show ?thesis
    using interchangeable_passwords [OF xor_block_cipher len, of "[107, 101, 121]"
        "[107, 101, 121, 0, 0]" "[1, 2, 3]"]
      interchangeable_passwords [OF xor_block_cipher len, of "replicate 32 7 @ [1]"
        "replicate 32 7 @ [2, 3]" "[1, 2, 3]"] k1 k2
    by blast
qed

text \<open>
  C10. String input: \<open>encrypt\<close> and \<open>encryptAsync\<close> of a string equal those of the
  buffer of its UTF-8 bytes, for the same IV. These bytes read back as the code points of
  the string, and are its code units when it is ASCII. The envelope of either function
  is the IV followed by the CBC ciphertext of the padded bytes, and both \<open>decrypt\<close> and
  \<open>decryptAsync\<close> return the bytes from it.
\<close>

theorem encrypt_string:
  "encrypt E iv (Str S) K = encrypt E iv (Buf (utf8_encode S)) K
   \<and> encryptAsync E iv (Str S) K = encryptAsync E iv (Buf (utf8_encode S)) K
   \<and> utf8_decode (utf8_encode S) = Some (code_points S)
   \<and> ((\<forall>u \<in> set S. unat u < 0x80) \<longrightarrow> utf8_encode S = map (\<lambda>u. of_nat (unat u)) S)
   \<and> (length iv = 16 \<longrightarrow>
        encrypt E iv (Str S) K
          = Inr (iv @ cbc_encrypt E (prepareKey K) iv (pkcs_pad (utf8_encode S)))
        \<and> encryptAsync E iv (Str S) K
          = Resolved (iv @ cbc_encrypt E (prepareKey K) iv (pkcs_pad (utf8_encode S))))
   \<and> (block_cipher E D \<longrightarrow> length iv = 16 \<longrightarrow>
        decrypt D (iv @ cbc_encrypt E (prepareKey K) iv (pkcs_pad (utf8_encode S))) K
          = Inr (utf8_encode S)
        \<and> decryptAsync D (iv @ cbc_encrypt E (prepareKey K) iv (pkcs_pad (utf8_encode S))) K
          = Inr (Resolved (utf8_encode S)))"
proof -
  define env where "env = iv @ cbc_encrypt E (prepareKey K) iv (pkcs_pad (utf8_encode S))"
  have same: "encrypt E iv (Str S) K = encrypt E iv (Buf (utf8_encode S)) K"
    by (simp only: encrypt_def update_input.simps)
  have same_async: "encryptAsync E iv (Str S) K = encryptAsync E iv (Buf (utf8_encode S)) K"
    by (simp only: encryptAsync_def write_chunk.simps)
  have enc: "encrypt E iv (Str S) K = Inr env" if "length iv = 16"
    using encrypt_envelope [OF that, of E "Str S" K] by (simp add: env_def)
  have enc_async: "encryptAsync E iv (Str S) K = Resolved env" if "length iv = 16"
    using enc [OF that] by (rule encryptAsync_Resolved)
  have dec: "decrypt D env K = Inr (utf8_encode S)" if "block_cipher E D" "length iv = 16"
    using decrypt_encrypt [OF that refl enc [OF that(2)]] by simp
  have dec_async: "decryptAsync D env K = Inr (Resolved (utf8_encode S))"
    if "block_cipher E D" "length iv = 16"
    using dec [OF that] by (rule decryptAsync_Resolved)
  show ?thesis
    unfolding env_def [symmetric]
    using same same_async utf8_decode_encode [of S] utf8_encode_ascii [of S]
      enc enc_async dec dec_async
    by blast
qed

theorem encrypt_string_witness:
  "utf8_encode [0x48, 0xE9, 0x20AC, 0xD83D, 0xDE00]
     = [72, 195, 169, 226, 130, 172, 240, 159, 152, 128]
   \<and> utf8_decode [72, 195, 169, 226, 130, 172, 240, 159, 152, 128]
     = Some [0x48, 0xE9, 0x20AC, 0x1F600]
   \<and> encrypt xor_cipher (replicate 16 8) (Str [0x48, 0xE9, 0x20AC, 0xD83D, 0xDE00]) [1]
     = encrypt xor_cipher (replicate 16 8)
         (Buf [72, 195, 169, 226, 130, 172, 240, 159, 152, 128]) [1]
   \<and> (\<exists>env. encrypt xor_cipher (replicate 16 8) (Str [0x48, 0xE9, 0x20AC, 0xD83D, 0xDE00]) [1]
            = Inr env
          \<and> encryptAsync xor_cipher (replicate 16 8) (Str [0x48, 0xE9, 0x20AC, 0xD83D, 0xDE00]) [1]
            = Resolved env
          \<and> decrypt xor_cipher env [1] = Inr [72, 195, 169, 226, 130, 172, 240, 159, 152, 128]
          \<and> decryptAsync xor_cipher env [1]
            = Inr (Resolved [72, 195, 169, 226, 130, 172, 240, 159, 152, 128]))
   \<and> utf8_encode [0x4F, 0x4B] = [79, 75]"
proof -
  have len: "length (replicate 16 (8 :: byte)) = 16" by simp
  have utf: "utf8_encode [0x48, 0xE9, 0x20AC, 0xD83D, 0xDE00]
               = [72, 195, 169, 226, 130, 172, 240, 159, 152, 128]"
    by (simp add: utf8_code_point_def lone_unit_def is_high_surrogate_def is_low_surrogate_def)
  have cps: "code_points [0x48, 0xE9, 0x20AC, 0xD83D, 0xDE00] = [0x48, 0xE9, 0x20AC, 0x1F600]"
    by (simp add: lone_unit_def is_high_surrogate_def is_low_surrogate_def)
  have ascii: "\<forall>u \<in> set [0x4F, 0x4B :: 16 word]. unat u < 0x80" by simp
  have ok: "utf8_encode [0x4F, 0x4B] = [79, 75]"
    using encrypt_string [of xor_cipher "replicate 16 8" "[0x4F, 0x4B]" "[1]" xor_cipher] ascii
    by simp
  show ?thesis
    using encrypt_string [of xor_cipher "replicate 16 8" "[0x48, 0xE9, 0x20AC, 0xD83D, 0xDE00]"
        "[1]" xor_cipher] xor_block_cipher len ok
    unfolding utf cps by blast
qed

end
